theory Spec2Isabelle
  imports Main "HOL-Library.Word"
begin

unbundle bit_operations_syntax

section \<open>Data model\<close>

text \<open>
  The program works on \<open>uint8_t\<close> and \<open>uint32_t\<close> values; both are modelled as
  machine words, so that \<open>+\<close> wraps around modulo \<open>2 ^ 32\<close> as the C++ unsigned
  arithmetic does. A \<open>std::array\<close> is a list; every index the program uses is
  within the array's fixed size.
\<close>

type_synonym u8 = "8 word"
type_synonym u32 = "32 word"

text \<open>
  The round constants, \<open>main.cpp\<close> lines 67-76, in the source's order; the
  hexadecimal digits are written in upper case here.
\<close>

definition K :: "u32 list" where
  "K = [
    0x428A2F98, 0x71374491, 0xB5C0FBCF, 0xE9B5DBA5, 0x3956C25B, 0x59F111F1, 0x923F82A4, 0xAB1C5ED5,
    0xD807AA98, 0x12835B01, 0x243185BE, 0x550C7DC3, 0x72BE5D74, 0x80DEB1FE, 0x9BDC06A7, 0xC19BF174,
    0xE49B69C1, 0xEFBE4786, 0x0FC19DC6, 0x240CA1CC, 0x2DE92C6F, 0x4A7484AA, 0x5CB0A9DC, 0x76F988DA,
    0x983E5152, 0xA831C66D, 0xB00327C8, 0xBF597FC7, 0xC6E00BF3, 0xD5A79147, 0x06CA6351, 0x14292967,
    0x27B70A85, 0x2E1B2138, 0x4D2C6DFC, 0x53380D13, 0x650A7354, 0x766A0ABB, 0x81C2C92E, 0x92722C85,
    0xA2BFE8A1, 0xA81A664B, 0xC24B8B70, 0xC76C51A3, 0xD192E819, 0xD6990624, 0xF40E3585, 0x106AA070,
    0x19A4C116, 0x1E376C08, 0x2748774C, 0x34B0BCB5, 0x391C0CB3, 0x4ED8AA4A, 0x5B9CCA4F, 0x682E6FF3,
    0x748F82EE, 0x78A5636F, 0x84C87814, 0x8CC70208, 0x90BEFFFA, 0xA4506CEB, 0xBEF9A3F7, 0xC67178F2]"

section \<open>The bitwise primitives, lines 80-87\<close>

text \<open>
  The C++ operators \<open>^\<close> and \<open>|\<close> group to the left; the brackets below say so,
  since \<open>XOR\<close> and \<open>OR\<close> group to the right.
  The shift amount \<open>n\<close> is a \<open>uint32_t\<close> in the source, and \<open>32 - n\<close> is
  computed in unsigned arithmetic, so it is the word subtraction here. C++ leaves a
  shift by 32 or more undefined; \<open>drop_bit\<close> and \<open>push_bit\<close> return 0 there. The
  checked variants below make that case a value of its own.
\<close>

definition Ch :: "u32 \<Rightarrow> u32 \<Rightarrow> u32 \<Rightarrow> u32" where
  "Ch x y z = (x AND y) XOR (NOT x AND z)"

definition Maj :: "u32 \<Rightarrow> u32 \<Rightarrow> u32 \<Rightarrow> u32" where
  "Maj x y z = ((x AND y) XOR (x AND z)) XOR (y AND z)"

definition SHR :: "u32 \<Rightarrow> u32 \<Rightarrow> u32" where
  "SHR x n = drop_bit (unat n) x"

definition ROTR :: "u32 \<Rightarrow> u32 \<Rightarrow> u32" where
  "ROTR x n = (drop_bit (unat n) x) OR (push_bit (unat (32 - n)) x)"

definition Sigma0 :: "u32 \<Rightarrow> u32" where
  "Sigma0 x = (ROTR x 2 XOR ROTR x 13) XOR ROTR x 22"

definition Sigma1 :: "u32 \<Rightarrow> u32" where
  "Sigma1 x = (ROTR x 6 XOR ROTR x 11) XOR ROTR x 25"

definition sigma0 :: "u32 \<Rightarrow> u32" where
  "sigma0 x = (ROTR x 7 XOR ROTR x 18) XOR SHR x 3"

definition sigma1 :: "u32 \<Rightarrow> u32" where
  "sigma1 x = (ROTR x 17 XOR ROTR x 19) XOR SHR x 10"

section \<open>\<open>sha256_transform\<close>, lines 91-133\<close>

text \<open>
  The schedule loop of lines 97-98: \<open>for (t = 16; t < 64; ++t) W[t] = ...\<close>. The
  counter starts at 16, so none of \<open>t - 2\<close>, \<open>t - 7\<close>, \<open>t - 15\<close>, \<open>t - 16\<close>
  goes below 0.
\<close>

function schedule_loop :: "nat \<Rightarrow> u32 list \<Rightarrow> u32 list" where
  "schedule_loop t W =
     (if t < 64
      then schedule_loop (t + 1)
             (W[t := sigma1 (W ! (t - 2)) + W ! (t - 7) + sigma0 (W ! (t - 15)) + W ! (t - 16)])
      else W)"
  by pat_completeness auto
termination
  by (relation "measure (\<lambda>(t, W). 64 - t)") auto

declare schedule_loop.simps [simp del]

text \<open>
  Lines 93-98. \<open>W\<close> is declared without an initialiser and \<open>std::copy\<close> fills its
  first 16 words; the other 48 are written by the loop before they are read
  (\<open>schedule_loop_tail\<close> below), so their initial content, taken as 0 here, does not
  matter.
\<close>

definition message_schedule :: "u32 list \<Rightarrow> u32 list" where
  "message_schedule blk = schedule_loop 16 (blk @ replicate 48 0)"

text \<open>The eight working variables \<open>a\<close> .. \<open>h\<close>, in this order.\<close>

type_synonym vars = "u32 \<times> u32 \<times> u32 \<times> u32 \<times> u32 \<times> u32 \<times> u32 \<times> u32"

text \<open>The body of the main loop, lines 112-121.\<close>

fun round_body :: "u32 list \<Rightarrow> nat \<Rightarrow> vars \<Rightarrow> vars" where
  "round_body W t (a, b, c, d, e, f, g, h) =
     (let T1 = h + Sigma1 e + Ch e f g + K ! t + W ! t;
          T2 = Sigma0 a + Maj a b c
      in (T1 + T2, a, b, c, d + T1, e, f, g))"

text \<open>The main loop, line 110: \<open>for (t = 0; t < 64; ++t)\<close>.\<close>

function main_loop :: "nat \<Rightarrow> u32 list \<Rightarrow> vars \<Rightarrow> vars" where
  "main_loop t W v = (if t < 64 then main_loop (t + 1) W (round_body W t v) else v)"
  by pat_completeness auto
termination
  by (relation "measure (\<lambda>(t, W, v). 64 - t)") auto

declare main_loop.simps [simp del]

text \<open>
  Lines 100-132: the working variables are read from the state, the 64 rounds run,
  and each variable is added into its state word with \<open>+=\<close>.
\<close>

definition compress :: "u32 list \<Rightarrow> u32 list \<Rightarrow> u32 list" where
  "compress st W =
     (case main_loop 0 W (st ! 0, st ! 1, st ! 2, st ! 3, st ! 4, st ! 5, st ! 6, st ! 7) of
        (a, b, c, d, e, f, g, h) \<Rightarrow>
          (let s0 = st[0 := st ! 0 + a];
               s1 = s0[1 := s0 ! 1 + b];
               s2 = s1[2 := s1 ! 2 + c];
               s3 = s2[3 := s2 ! 3 + d];
               s4 = s3[4 := s3 ! 4 + e];
               s5 = s4[5 := s4 ! 5 + f];
               s6 = s5[6 := s5 ! 6 + g];
               s7 = s6[7 := s6 ! 7 + h]
           in s7))"

text \<open>
  The two arrays the function is called with: \<open>state\<close>, passed by reference, and
  \<open>block\<close>, passed by \<open>const\<close> reference; the record's extension stands for
  the rest of the memory. The function returns the memory after the call.
\<close>

record mem =
  state :: "u32 list"
  block :: "u32 list"

definition sha256_transform :: "'a mem_scheme \<Rightarrow> 'a mem_scheme" where
  "sha256_transform m = m\<lparr>state := compress (state m) (message_schedule (block m))\<rparr>"

section \<open>\<open>sha256_transform\<close>, store by store\<close>

text \<open>
  The same function over a memory of words with addresses, every assignment to an
  array element being a store at its address: \<open>sp\<close> is where \<open>state\<close> lies,
  \<open>bp\<close> where \<open>block\<close> lies, and \<open>wp\<close> where the function's own array
  \<open>W\<close> lies. The working variables are scalars and have no address.
\<close>

type_synonym store = "nat \<Rightarrow> u32"

text \<open>Reading \<open>n\<close> words from address \<open>base\<close>, and writing one word.\<close>

definition load :: "store \<Rightarrow> nat \<Rightarrow> nat \<Rightarrow> u32 list" where
  "load s base n = map (\<lambda>i. s (base + i)) [0..<n]"

definition put :: "store \<Rightarrow> nat \<Rightarrow> u32 \<Rightarrow> store" where
  "put s a v = s(a := v)"

text \<open>Two address ranges that do not overlap: \<open>n\<close> words at \<open>a\<close>, \<open>m\<close> words at \<open>b\<close>.\<close>

definition apart :: "nat \<Rightarrow> nat \<Rightarrow> nat \<Rightarrow> nat \<Rightarrow> bool" where
  "apart a n b m \<longleftrightarrow> a + n \<le> b \<or> b + m \<le> a"

text \<open>Line 94, \<open>std::copy\<close>: the 16 words of \<open>block\<close> are stored to \<open>W[0 .. 15]\<close>.\<close>

function copy_stores :: "nat \<Rightarrow> nat \<Rightarrow> nat \<Rightarrow> store \<Rightarrow> store" where
  "copy_stores bp wp i s =
     (if i < 16 then copy_stores bp wp (i + 1) (put s (wp + i) (s (bp + i))) else s)"
  by pat_completeness auto
termination
  by (relation "measure (\<lambda>(bp, wp, i, s). 16 - i)") auto

declare copy_stores.simps [simp del]

text \<open>Lines 97-98: \<open>W[t] = ...\<close>, loaded from and stored to \<open>W\<close>.\<close>

function schedule_stores :: "nat \<Rightarrow> nat \<Rightarrow> store \<Rightarrow> store" where
  "schedule_stores wp t s =
     (if t < 64
      then schedule_stores wp (t + 1)
             (put s (wp + t) (sigma1 (s (wp + (t - 2))) + s (wp + (t - 7))
                               + sigma0 (s (wp + (t - 15))) + s (wp + (t - 16))))
      else s)"
  by pat_completeness auto
termination
  by (relation "measure (\<lambda>(wp, t, s). 64 - t)") auto

declare schedule_stores.simps [simp del]

text \<open>
  Lines 110-122: the rounds load \<open>W[t]\<close> and \<open>K[t]\<close> and assign only the local
  scalars \<open>a\<close> .. \<open>h\<close>, \<open>T1\<close>, \<open>T2\<close>.
\<close>

fun round_loads :: "nat \<Rightarrow> store \<Rightarrow> nat \<Rightarrow> vars \<Rightarrow> vars" where
  "round_loads wp s t (a, b, c, d, e, f, g, h) =
     (let T1 = h + Sigma1 e + Ch e f g + K ! t + s (wp + t);
          T2 = Sigma0 a + Maj a b c
      in (T1 + T2, a, b, c, d + T1, e, f, g))"

function main_loads :: "nat \<Rightarrow> store \<Rightarrow> nat \<Rightarrow> vars \<Rightarrow> vars" where
  "main_loads wp s t v = (if t < 64 then main_loads wp s (t + 1) (round_loads wp s t v) else v)"
  by pat_completeness auto
termination
  by (relation "measure (\<lambda>(wp, s, t, v). 64 - t)") auto

declare main_loads.simps [simp del]

text \<open>
  The whole body: lines 100-107 load the state, lines 125-132 are the eight
  \<open>state[i] += ...\<close>, each a load and a store at \<open>sp + i\<close>.
\<close>

definition sha256_transform_stores :: "nat \<Rightarrow> nat \<Rightarrow> nat \<Rightarrow> store \<Rightarrow> store" where
  "sha256_transform_stores sp bp wp s =
     (let s = copy_stores bp wp 0 s;
          s = schedule_stores wp 16 s
      in case main_loads wp s 0
                (s (sp + 0), s (sp + 1), s (sp + 2), s (sp + 3),
                 s (sp + 4), s (sp + 5), s (sp + 6), s (sp + 7)) of
           (a, b, c, d, e, f, g, h) \<Rightarrow>
             (let s = put s (sp + 0) (s (sp + 0) + a);
                  s = put s (sp + 1) (s (sp + 1) + b);
                  s = put s (sp + 2) (s (sp + 2) + c);
                  s = put s (sp + 3) (s (sp + 3) + d);
                  s = put s (sp + 4) (s (sp + 4) + e);
                  s = put s (sp + 5) (s (sp + 5) + f);
                  s = put s (sp + 6) (s (sp + 6) + g);
                  s = put s (sp + 7) (s (sp + 7) + h)
              in s))"

section \<open>\<open>main\<close>, lines 137-184\<close>

text \<open>
  Lines 149-158: the 64-byte buffer is zeroed, the input copied to its start, and
  \<open>0x80\<close> stored after it when the input is shorter than 64 bytes. No bit-length
  is appended (the comment of lines 156-157 says so). The caller has checked
  \<open>input.size() \<le> 64\<close>.
\<close>

definition main_pad :: "u8 list \<Rightarrow> u8 list" where
  "main_pad input =
     (let bytes = replicate 64 0;
          bytes = input @ drop (length input) bytes
      in if length input < 64 then bytes[length input := 0x80] else bytes)"

text \<open>
  Lines 162-166. \<open>bytes[4*i+j]\<close> is promoted to a 32-bit \<open>int\<close> before the shift
  and the result converted to \<open>uint32_t\<close> by \<open>|=\<close>, which keeps the 32 bits of
  the shifted value.
\<close>

function word_loop :: "u8 list \<Rightarrow> nat \<Rightarrow> nat \<Rightarrow> u32 list \<Rightarrow> u32 list" where
  "word_loop bytes i j blk =
     (if j < 4
      then word_loop bytes i (j + 1)
             (blk[i := blk ! i OR push_bit (24 - 8 * j) (ucast (bytes ! (4 * i + j)))])
      else blk)"
  by pat_completeness auto
termination
  by (relation "measure (\<lambda>(bytes, i, j, blk). 4 - j)") auto

declare word_loop.simps [simp del]

function block_loop :: "u8 list \<Rightarrow> nat \<Rightarrow> u32 list \<Rightarrow> u32 list" where
  "block_loop bytes i blk =
     (if i < 16 then block_loop bytes (i + 1) (word_loop bytes i 0 blk) else blk)"
  by pat_completeness auto
termination
  by (relation "measure (\<lambda>(bytes, i, blk). 16 - i)") auto

declare block_loop.simps [simp del]

text \<open>
  Line 161 declares \<open>block\<close> without an initialiser, and the loop only ever ORs into
  it: what the 16 words hold before the loop is whatever the storage held. That
  content is the parameter \<open>uninit\<close>, word \<open>i\<close> of the storage being \<open>uninit i\<close>.
\<close>

definition main_words :: "(nat \<Rightarrow> u32) \<Rightarrow> u8 list \<Rightarrow> u32 list" where
  "main_words uninit bytes = block_loop bytes 0 (map uninit [0..<16])"

text \<open>The initial hash state, lines 169-172.\<close>

definition IV :: "u32 list" where
  "IV = [0x6a09e667, 0xbb67ae85, 0x3c6ef372, 0xa54ff53a,
         0x510e527f, 0x9b05688c, 0x1f83d9ab, 0x5be0cd19]"

text \<open>
  Lines 178-181: each state word is printed in hexadecimal, lower case, padded on the
  left with \<open>0\<close> to eight characters; a newline follows the last one.
\<close>

definition hex_digit :: "int \<Rightarrow> char" where
  "hex_digit d = ''0123456789abcdef'' ! nat d"

function hex_digits :: "int \<Rightarrow> string" where
  "hex_digits n =
     (if n < 16 then [hex_digit n] else hex_digits (n div 16) @ [hex_digit (n mod 16)])"
  by pat_completeness auto
termination
  by (relation "measure nat") auto

declare hex_digits.simps [simp del]

definition print_word :: "u32 \<Rightarrow> string" where
  "print_word w = (let s = hex_digits (uint w) in replicate (8 - length s) CHR ''0'' @ s)"

definition main_print :: "u32 list \<Rightarrow> string" where
  "main_print st = concat (map print_word st) @ [CHR 0x0A]"

text \<open>
  The whole of \<open>main\<close> after the line has been read: \<open>input\<close> is the line, as
  bytes. An input of more than 64 bytes ends the program with exit code 1 (lines
  143-146); otherwise the result is what the program prints after the prompt.
\<close>

datatype error = InputTooLong

definition main_state :: "(nat \<Rightarrow> u32) \<Rightarrow> u8 list \<Rightarrow> error + u32 list" where
  "main_state uninit input =
     (if length input > 64 then Inl InputTooLong
      else Inr (state (sha256_transform
                  \<lparr>state = IV, block = main_words uninit (main_pad input)\<rparr>)))"

definition main :: "(nat \<Rightarrow> u32) \<Rightarrow> u8 list \<Rightarrow> error + string" where
  "main uninit input =
     (case main_state uninit input of
        Inl e \<Rightarrow> Inl e
      | Inr st \<Rightarrow> Inr (main_print st))"

section \<open>Undefined shifts made explicit\<close>

text \<open>
  A C++ shift of a 32-bit value by 32 or more is undefined. \<open>ROTR_chk\<close> is
  \<open>ROTR\<close> with that case as \<open>None\<close>: \<open>x >> n\<close> needs \<open>n < 32\<close> and
  \<open>x << (32 - n)\<close> needs \<open>32 - n < 32\<close>, the subtraction being unsigned.
  \<open>ROTR_call\<close> also records the amount it was called with, and the four callers
  of \<open>ROTR\<close> (lines 84-87) are repeated over it, threading the record of calls.
\<close>

definition ROTR_chk :: "u32 \<Rightarrow> u32 \<Rightarrow> u32 option" where
  "ROTR_chk x n = (if unat n < 32 \<and> unat (32 - n) < 32 then Some (ROTR x n) else None)"

definition ROTR_call :: "u32 \<Rightarrow> u32 \<Rightarrow> u32 list \<Rightarrow> u32 option \<times> u32 list" where
  "ROTR_call x n calls = (ROTR_chk x n, calls @ [n])"

definition xor_chk :: "u32 option \<Rightarrow> u32 option \<Rightarrow> u32 option" where
  "xor_chk p q = (case (p, q) of (Some v, Some w) \<Rightarrow> Some (v XOR w) | _ \<Rightarrow> None)"

definition Sigma0_calls :: "u32 \<Rightarrow> u32 list \<Rightarrow> u32 option \<times> u32 list" where
  "Sigma0_calls x calls =
     (case ROTR_call x 2 calls of (r1, c1) \<Rightarrow>
      case ROTR_call x 13 c1 of (r2, c2) \<Rightarrow>
      case ROTR_call x 22 c2 of (r3, c3) \<Rightarrow> (xor_chk (xor_chk r1 r2) r3, c3))"

definition Sigma1_calls :: "u32 \<Rightarrow> u32 list \<Rightarrow> u32 option \<times> u32 list" where
  "Sigma1_calls x calls =
     (case ROTR_call x 6 calls of (r1, c1) \<Rightarrow>
      case ROTR_call x 11 c1 of (r2, c2) \<Rightarrow>
      case ROTR_call x 25 c2 of (r3, c3) \<Rightarrow> (xor_chk (xor_chk r1 r2) r3, c3))"

definition sigma0_calls :: "u32 \<Rightarrow> u32 list \<Rightarrow> u32 option \<times> u32 list" where
  "sigma0_calls x calls =
     (case ROTR_call x 7 calls of (r1, c1) \<Rightarrow>
      case ROTR_call x 18 c1 of (r2, c2) \<Rightarrow> (xor_chk (xor_chk r1 r2) (Some (SHR x 3)), c2))"

definition sigma1_calls :: "u32 \<Rightarrow> u32 list \<Rightarrow> u32 option \<times> u32 list" where
  "sigma1_calls x calls =
     (case ROTR_call x 17 calls of (r1, c1) \<Rightarrow>
      case ROTR_call x 19 c1 of (r2, c2) \<Rightarrow> (xor_chk (xor_chk r1 r2) (Some (SHR x 10)), c2))"

section \<open>The functions of the specification\<close>

text \<open>
  The specification's round functions, with \<open>rotr\<close> the rotation of a 32-bit word
  (\<open>word_rotr\<close>) and \<open>shr\<close> the logical shift.
\<close>

definition spec_Ch :: "u32 \<Rightarrow> u32 \<Rightarrow> u32 \<Rightarrow> u32" where
  "spec_Ch x y z = (x AND y) XOR (NOT x AND z)"

definition spec_Maj :: "u32 \<Rightarrow> u32 \<Rightarrow> u32 \<Rightarrow> u32" where
  "spec_Maj x y z = (x AND y) XOR (x AND z) XOR (y AND z)"

definition spec_Sigma0 :: "u32 \<Rightarrow> u32" where
  "spec_Sigma0 x = word_rotr 2 x XOR word_rotr 13 x XOR word_rotr 22 x"

definition spec_Sigma1 :: "u32 \<Rightarrow> u32" where
  "spec_Sigma1 x = word_rotr 6 x XOR word_rotr 11 x XOR word_rotr 25 x"

definition spec_sigma0 :: "u32 \<Rightarrow> u32" where
  "spec_sigma0 x = word_rotr 7 x XOR word_rotr 18 x XOR drop_bit 3 x"

definition spec_sigma1 :: "u32 \<Rightarrow> u32" where
  "spec_sigma1 x = word_rotr 17 x XOR word_rotr 19 x XOR drop_bit 10 x"

text \<open>
  One round as the specification writes it: the sums are sums of natural numbers
  reduced modulo \<open>2 ^ 32\<close>.
\<close>

definition spec_round :: "u32 list \<Rightarrow> nat \<Rightarrow> vars \<Rightarrow> vars" where
  "spec_round W t v =
     (case v of (a, b, c, d, e, f, g, h) \<Rightarrow>
        (let T1 = (unat h + unat (spec_Sigma1 e) + unat (spec_Ch e f g) + unat (K ! t)
                    + unat (W ! t)) mod 2 ^ 32;
             T2 = (unat (spec_Sigma0 a) + unat (spec_Maj a b c)) mod 2 ^ 32
         in (of_nat ((T1 + T2) mod 2 ^ 32), a, b, c, of_nat ((unat d + T1) mod 2 ^ 32), e, f, g)))"

text \<open>The working variables after rounds \<open>0 .. n - 1\<close>.\<close>

primrec spec_rounds :: "u32 list \<Rightarrow> nat \<Rightarrow> vars \<Rightarrow> vars" where
  "spec_rounds W 0 v = v"
| "spec_rounds W (Suc n) v = spec_round W n (spec_rounds W n v)"

text \<open>
  The 64 rounds from the state's words, then every working variable added modulo
  \<open>2 ^ 32\<close> to the state word of the same position.
\<close>

definition spec_compress :: "u32 list \<Rightarrow> u32 list \<Rightarrow> u32 list" where
  "spec_compress st W =
     (case spec_rounds W 64 (st ! 0, st ! 1, st ! 2, st ! 3, st ! 4, st ! 5, st ! 6, st ! 7) of
        (a, b, c, d, e, f, g, h) \<Rightarrow>
          map (\<lambda>(s, x). of_nat ((unat s + unat x) mod 2 ^ 32)) (zip st [a, b, c, d, e, f, g, h]))"

text \<open>A byte sequence read as a big-endian integer.\<close>

definition be_decode :: "u8 list \<Rightarrow> nat" where
  "be_decode bs = foldl (\<lambda>acc b. acc * 256 + unat b) 0 bs"

text \<open>Four bytes assembled into a word, most significant byte first.\<close>

definition be_word :: "u8 \<Rightarrow> u8 \<Rightarrow> u8 \<Rightarrow> u8 \<Rightarrow> u32" where
  "be_word b0 b1 b2 b3 =
     push_bit 24 (ucast b0) + push_bit 16 (ucast b1) + push_bit 8 (ucast b2) + ucast b3"

text \<open>
  Two contents of the storage that \<open>block\<close> is given: all zero, and zero but for
  the lowest bit of word 1.
\<close>

definition zeroed :: "nat \<Rightarrow> u32" where
  "zeroed i = 0"

definition stale :: "nat \<Rightarrow> u32" where
  "stale i = (if i = 1 then 1 else 0)"

text \<open>The messages used as examples: \<open>abc\<close>, and 56 and 65 bytes \<open>a\<close>.\<close>

definition msg_abc :: "u8 list" where
  "msg_abc = [0x61, 0x62, 0x63]"

definition msg_56 :: "u8 list" where
  "msg_56 = replicate 56 0x61"

definition msg_65 :: "u8 list" where
  "msg_65 = replicate 65 0x61"

text \<open>
  What the inner loop of lines 163-165 ORs into word \<open>i\<close> over its four
  iterations.
\<close>

definition or_bytes :: "u8 list \<Rightarrow> nat \<Rightarrow> u32" where
  "or_bytes bytes i =
     push_bit 24 (ucast (bytes ! (4 * i))) OR push_bit 16 (ucast (bytes ! (4 * i + 1)))
     OR push_bit 8 (ucast (bytes ! (4 * i + 2))) OR ucast (bytes ! (4 * i + 3))"

section \<open>\<open>ROTR\<close> is the rotation\<close>

lemma shift_or_is_rotr:
  fixes x :: u32
  assumes "0 < k" "k < 32"
  shows "drop_bit k x OR push_bit (32 - k) x = word_rotr k x"
proof (rule bit_word_eqI)
  fix i assume "i < LENGTH(32)"
  then have i: "i < 32" by simp
  show "bit (drop_bit k x OR push_bit (32 - k) x) i = bit (word_rotr k x) i"
  proof (cases "i + k < 32")
    case True
    then have "\<not> 32 - k \<le> i" "(i + k) mod 32 = i + k" by auto
    with i show ?thesis
      by (simp add: bit_simps add.commute)
  next
    case False
    with i assms have m: "(i + k) mod 32 = i + k - 32"
      by (simp add: mod_if)
    from False i assms have s: "i - (32 - k) = i + k - 32" "32 - k \<le> i" by auto
    from False have "\<not> bit x (k + i)"
      using bit_imp_le_length [of x "k + i"] by (auto simp add: add.commute)
    with i m s show ?thesis
      by (simp add: bit_simps)
  qed
qed

lemma ROTR_word_rotr:
  assumes "1 \<le> n" "n \<le> 31"
  shows "ROTR x n = word_rotr (unat n) x"
proof -
  from assms have a: "1 \<le> unat n" "unat n \<le> 31"
    by (simp_all add: word_le_nat_alt)
  then have "unat (32 - n) = 32 - unat n"
    by (simp add: unat_sub word_le_nat_alt)
  with a show ?thesis
    by (simp add: ROTR_def shift_or_is_rotr)
qed

lemma Sigma0_rotr: "Sigma0 x = word_rotr 2 x XOR word_rotr 13 x XOR word_rotr 22 x"
  by (simp add: Sigma0_def ROTR_word_rotr xor.assoc)

lemma Sigma1_rotr: "Sigma1 x = word_rotr 6 x XOR word_rotr 11 x XOR word_rotr 25 x"
  by (simp add: Sigma1_def ROTR_word_rotr xor.assoc)

lemma sigma0_rotr: "sigma0 x = word_rotr 7 x XOR word_rotr 18 x XOR drop_bit 3 x"
  by (simp add: sigma0_def SHR_def ROTR_word_rotr xor.assoc)

lemma sigma1_rotr: "sigma1 x = word_rotr 17 x XOR word_rotr 19 x XOR drop_bit 10 x"
  by (simp add: sigma1_def SHR_def ROTR_word_rotr xor.assoc)

section \<open>The schedule loop\<close>

lemma schedule_loop_length: "length (schedule_loop t W) = length W"
  by (induction t W rule: schedule_loop.induct) (subst schedule_loop.simps, simp)

lemma schedule_loop_below: "i < t \<Longrightarrow> schedule_loop t W ! i = W ! i"
proof (induction t W rule: schedule_loop.induct)
  case (1 t W)
  show ?case
  proof (cases "t < 64")
    case True
    with 1 show ?thesis
      by (subst schedule_loop.simps) simp
  next
    case False
    then show ?thesis
      by (subst schedule_loop.simps) simp
  qed
qed

lemma schedule_loop_rec:
  assumes "16 \<le> t" "length W = 64" "t \<le> i" "i < 64"
  shows "schedule_loop t W ! i =
           sigma1 (schedule_loop t W ! (i - 2)) + schedule_loop t W ! (i - 7)
           + sigma0 (schedule_loop t W ! (i - 15)) + schedule_loop t W ! (i - 16)"
  using assms
proof (induction t W rule: schedule_loop.induct)
  case (1 t W)
  let ?W' = "W[t := sigma1 (W ! (t - 2)) + W ! (t - 7) + sigma0 (W ! (t - 15)) + W ! (t - 16)]"
  from 1(2-5) have t: "t < 64" by simp
  then have unf: "schedule_loop t W = schedule_loop (t + 1) ?W'"
    by (subst schedule_loop.simps) simp
  show ?case
  proof (cases "i = t")
    case True
    let ?R = "schedule_loop (t + 1) ?W'"
    have below: "?R ! k = ?W' ! k" if "k < t + 1" for k
      using that by (rule schedule_loop_below)
    have old: "?R ! (t - k) = W ! (t - k)" if "0 < k" "k \<le> 16" for k
    proof -
      from that 1(2) have "t - k < t + 1" "t - k \<noteq> t" by simp_all
      then show ?thesis using below [of "t - k"] by simp
    qed
    have o: "?R ! (t - 2) = W ! (t - 2)" "?R ! (t - 7) = W ! (t - 7)"
      "?R ! (t - 15) = W ! (t - 15)" "?R ! (t - 16) = W ! (t - 16)"
      using old [of 2] old [of 7] old [of 15] old [of 16] by simp_all
    from t 1(3) have "?R ! t = sigma1 (W ! (t - 2)) + W ! (t - 7) + sigma0 (W ! (t - 15)) + W ! (t - 16)"
      using below [of t] by simp
    then show ?thesis
      unfolding unf True by (simp only: o)
  next
    case False
    with 1(4) have "t + 1 \<le> i" by simp
    with 1(1) [OF t] 1(2,3,5) show ?thesis
      unfolding unf by simp
  qed
qed

lemma schedule_loop_agree:
  assumes "16 \<le> t" "length W = 64" "length W' = 64" "take t W = take t W'"
  shows "schedule_loop t W = schedule_loop t W'"
  using assms
proof (induction t W arbitrary: W' rule: schedule_loop.induct)
  case (1 t W)
  show ?case
  proof (cases "t < 64")
    case True
    let ?e = "\<lambda>W. sigma1 (W ! (t - 2)) + W ! (t - 7) + sigma0 (W ! (t - 15)) + W ! (t - 16)"
    have same: "W ! k = W' ! k" if "k < t" for k
      using that 1(5) by (metis nth_take)
    from 1(2) have "?e W = ?e W'"
      by (simp add: same)
    moreover have "take (t + 1) (W[t := x]) = take (t + 1) (W'[t := x])" for x
      using True 1(3,4,5) by (simp add: take_Suc_conv_app_nth)
    ultimately have "take (t + 1) (W[t := ?e W]) = take (t + 1) (W'[t := ?e W'])"
      by simp
    with 1(1) [OF True, of "W'[t := ?e W']"] 1(2,3,4)
    have "schedule_loop (t + 1) (W[t := ?e W]) = schedule_loop (t + 1) (W'[t := ?e W'])"
      by simp
    with True show ?thesis
      by (subst schedule_loop.simps, subst (2) schedule_loop.simps) simp
  next
    case False
    with 1(3,4,5) have "W = W'" by simp
    then show ?thesis by simp
  qed
qed

lemma schedule_loop_tail:
  assumes "length blk = 16" "length rest = 48"
  shows "schedule_loop 16 (blk @ rest) = message_schedule blk"
  unfolding message_schedule_def using assms
  by (intro schedule_loop_agree) simp_all

lemma unat_add4:
  fixes a b c d :: u32
  shows "unat (a + b + c + d) = (unat a + unat b + unat c + unat d) mod 2 ^ 32"
  by (simp add: unat_word_ariths mod_simps)

section \<open>The compression loop refines the specification's rounds\<close>

lemma unat_add_mod32: "unat (a + b :: u32) = (unat a + unat b) mod 2 ^ 32"
  by (simp add: unat_word_ariths)

lemma of_nat_add_mod32: "(of_nat ((unat a + unat b) mod 2 ^ 32) :: u32) = a + b"
proof -
  have "(of_nat (unat (a + b)) :: u32) = a + b" by simp
  then show ?thesis by (simp only: unat_add_mod32)
qed

lemma round_body_spec: "round_body W t v = spec_round W t v"
proof -
  obtain a b c d e f g h where v: "v = (a, b, c, d, e, f, g, h)"
    by (metis prod_cases3)
  have u1: "(unat h + unat (Sigma1 e) + unat (Ch e f g) + unat (K ! t) + unat (W ! t)) mod 2 ^ 32
      = unat (h + Sigma1 e + Ch e f g + K ! t + W ! t)"
    by (simp add: unat_word_ariths mod_simps)
  have u2: "(unat (Sigma0 a) + unat (Maj a b c)) mod 2 ^ 32 = unat (Sigma0 a + Maj a b c)"
    by (simp add: unat_word_ariths)
  have same: "spec_Sigma0 = Sigma0" "spec_Sigma1 = Sigma1" "spec_Ch = Ch" "spec_Maj = Maj"
    by (simp_all add: fun_eq_iff spec_Sigma0_def spec_Sigma1_def Sigma0_rotr Sigma1_rotr
        spec_Ch_def Ch_def spec_Maj_def Maj_def xor.assoc)
  show ?thesis
    unfolding v spec_round_def same
    by (simp only: round_body.simps prod.case Let_def u1 u2 of_nat_add_mod32)
qed

lemma main_loop_spec:
  "t \<le> 64 \<Longrightarrow> main_loop t W (spec_rounds W t v) = spec_rounds W 64 v"
proof (induction "64 - t" arbitrary: t)
  case 0
  then have "t = 64" by simp
  then show ?case
    by (subst main_loop.simps) simp
next
  case (Suc n)
  then have t: "t < 64" and n: "n = 64 - (t + 1)" and le: "t + 1 \<le> 64"
    by simp_all
  have "main_loop t W (spec_rounds W t v) = main_loop (t + 1) W (spec_rounds W (Suc t) v)"
    using t by (subst main_loop.simps) (simp add: round_body_spec)
  also have "\<dots> = spec_rounds W 64 v"
    using Suc(1) [OF n le] by simp
  finally show ?case .
qed

lemma list8:
  assumes "length xs = 8"
  obtains x0 x1 x2 x3 x4 x5 x6 x7 where "xs = [x0, x1, x2, x3, x4, x5, x6, x7]"
  using assms by (auto simp add: numeral_eq_Suc length_Suc_conv)

lemma compress_spec:
  assumes "length st = 8"
  shows "compress st W = spec_compress st W"
proof -
  from assms obtain x0 x1 x2 x3 x4 x5 x6 x7 where st: "st = [x0, x1, x2, x3, x4, x5, x6, x7]"
    by (rule list8)
  have loop: "main_loop 0 W v = spec_rounds W 64 v" for v
    using main_loop_spec [of 0 W v] by simp
  obtain a b c d e f g h where r: "spec_rounds W 64 (x0, x1, x2, x3, x4, x5, x6, x7) = (a, b, c, d, e, f, g, h)"
    by (metis prod_cases3)
  show ?thesis
    unfolding compress_def spec_compress_def loop st r
    by (simp add: of_nat_add_mod32 del: power_numeral)
qed

section \<open>Block assembly\<close>

lemma word_loop_fold:
  "word_loop bytes i j blk
     = fold (\<lambda>j b. b[i := b ! i OR push_bit (24 - 8 * j) (ucast (bytes ! (4 * i + j)))]) [j..<4] blk"
proof (induction bytes i j blk rule: word_loop.induct)
  case (1 bytes i j blk)
  show ?case
  proof (cases "j < 4")
    case True
    then have "[j..<4] = j # [j + 1..<4]"
      by (simp add: upt_conv_Cons)
    with True 1 show ?thesis
      by (subst word_loop.simps) simp
  next
    case False
    then show ?thesis
      by (subst word_loop.simps) simp
  qed
qed

lemma upt_0_4: "[0..<4] = [0, 1, 2, 3]"
  by code_simp

lemma word_loop_from_0:
  assumes "i < length blk"
  shows "word_loop bytes i 0 blk = blk[i := blk ! i OR or_bytes bytes i]"
  using assms by (simp add: word_loop_fold upt_0_4 or_bytes_def or.assoc)

lemma word_loop_length: "length (word_loop bytes i 0 blk) = length blk"
proof (cases "i < length blk")
  case True
  then show ?thesis by (simp add: word_loop_from_0)
next
  case False
  have "word_loop bytes i j b = b" if "\<not> i < length b" for j b
    using that by (induction bytes i j b rule: word_loop.induct) (subst word_loop.simps, simp add: list_update_beyond)
  with False show ?thesis by simp
qed

lemma block_loop_nth:
  assumes "length blk = 16" "k < 16"
  shows "block_loop bytes i blk ! k = (if i \<le> k then blk ! k OR or_bytes bytes k else blk ! k)"
  using assms
proof (induction bytes i blk rule: block_loop.induct)
  case (1 bytes i blk)
  show ?case
  proof (cases "i < 16")
    case True
    with 1(2) have upd: "word_loop bytes i 0 blk = blk[i := blk ! i OR or_bytes bytes i]"
      by (simp add: word_loop_from_0)
    from 1(2) have len: "length (word_loop bytes i 0 blk) = 16"
      by (simp add: word_loop_length)
    have "block_loop bytes i blk ! k = block_loop bytes (i + 1) (word_loop bytes i 0 blk) ! k"
      using True by (subst block_loop.simps) simp
    also have "\<dots> = (if i + 1 \<le> k then word_loop bytes i 0 blk ! k OR or_bytes bytes k
                      else word_loop bytes i 0 blk ! k)"
      using 1(1) [OF True len 1(3)] .
    also have "\<dots> = (if i \<le> k then blk ! k OR or_bytes bytes k else blk ! k)"
      using True 1(2,3) by (auto simp add: upd nth_list_update dest: le_antisym)
    finally show ?thesis .
  next
    case False
    with 1(3) show ?thesis
      by (subst block_loop.simps) simp
  qed
qed

lemma block_loop_length: "length (block_loop bytes i blk) = length blk"
  by (induction bytes i blk rule: block_loop.induct)
    (subst block_loop.simps, simp add: word_loop_length)

lemma main_words_nth:
  assumes "k < 16"
  shows "main_words uninit bytes ! k = uninit k OR or_bytes bytes k"
  using assms by (simp add: main_words_def block_loop_nth)

lemma main_words_length: "length (main_words uninit bytes) = 16"
  by (simp add: main_words_def block_loop_length)

lemma or_bytes_be_word:
  "or_bytes bytes i = be_word (bytes ! (4 * i)) (bytes ! (4 * i + 1)) (bytes ! (4 * i + 2)) (bytes ! (4 * i + 3))"
proof -
  have or_plus: "x OR y = x + y" if "x AND y = 0" for x y :: u32
    using that by (simp add: disjunctive_add_eq_or)
  have f1: "push_bit 8 (ucast c :: u32) AND ucast d = 0" for c d :: u8
    by (rule bit_word_eqI) (auto simp add: bit_simps dest: bit_imp_le_length)
  have f2: "push_bit 16 (ucast b :: u32) AND (push_bit 8 (ucast c) OR ucast d) = 0" for b c d :: u8
    by (rule bit_word_eqI) (auto simp add: bit_simps dest: bit_imp_le_length)
  have f3: "push_bit 24 (ucast a :: u32) AND (push_bit 16 (ucast b) OR push_bit 8 (ucast c) OR ucast d) = 0"
    for a b c d :: u8
    by (rule bit_word_eqI) (auto simp add: bit_simps dest: bit_imp_le_length)
  show ?thesis
    unfolding or_bytes_def be_word_def
    by (subst or_plus [OF f3], subst or_plus [OF f2], subst or_plus [OF f1]) (simp only: add.assoc)
qed

section \<open>No shift is undefined\<close>

lemma ROTR_chk_Some:
  assumes "1 \<le> n" "n \<le> 31"
  shows "ROTR_chk x n = Some (word_rotr (unat n) x)"
proof -
  from assms have a: "1 \<le> unat n" "unat n \<le> 31"
    by (simp_all add: word_le_nat_alt)
  then have "unat (32 - n) = 32 - unat n"
    by (simp add: unat_sub word_le_nat_alt)
  with a assms show ?thesis
    by (simp add: ROTR_chk_def ROTR_word_rotr)
qed

lemma ROTR_chk_None:
  assumes "n = 0 \<or> 32 \<le> n"
  shows "ROTR_chk x n = None"
  using assms by (auto simp add: ROTR_chk_def word_le_nat_alt)

lemma ROTR_chk_iff: "ROTR_chk x n \<noteq> None \<longleftrightarrow> 1 \<le> n \<and> n \<le> 31"
proof (cases "1 \<le> n \<and> n \<le> 31")
  case True
  then show ?thesis by (simp add: ROTR_chk_Some)
next
  case False
  then have "n = 0 \<or> 32 \<le> n"
    by (auto simp add: word_le_nat_alt word_less_nat_alt unat_eq_zero not_le)
  with False show ?thesis by (simp add: ROTR_chk_None)
qed

section \<open>Padding\<close>

lemma main_pad_short:
  assumes "length input < 64"
  shows "main_pad input = input @ 0x80 # replicate (63 - length input) 0"
proof -
  from assms have "drop (length input) (replicate 64 (0::u8)) = 0 # replicate (63 - length input) 0"
    by (simp add: Suc_diff_Suc flip: replicate_Suc)
  with assms show ?thesis
    by (simp add: main_pad_def Let_def list_update_append)
qed

lemma main_pad_full:
  assumes "length input = 64"
  shows "main_pad input = input"
  using assms by (simp add: main_pad_def)

lemma main_pad_length:
  assumes "length input \<le> 64"
  shows "length (main_pad input) = 64"
  using assms by (cases "length input < 64") (simp_all add: main_pad_short main_pad_full)

lemma be_decode_zeros: "be_decode (replicate n 0) = 0"
proof -
  have "foldl (\<lambda>acc b. acc * 256 + unat b) 0 (replicate n (0::u8)) = 0"
    by (induction n) simp_all
  then show ?thesis by (simp add: be_decode_def)
qed

section \<open>Printing\<close>

lemma hex_digits_length:
  assumes "0 \<le> n" "n < 16 ^ Suc k"
  shows "length (hex_digits n) \<le> Suc k"
  using assms
proof (induction k arbitrary: n)
  case 0
  then show ?case by (subst hex_digits.simps) simp
next
  case (Suc k)
  show ?case
  proof (cases "n < 16")
    case True
    then show ?thesis by (subst hex_digits.simps) simp
  next
    case False
    from Suc(2,3) have "0 \<le> n div 16" "n div 16 < 16 ^ Suc k"
      by (simp_all add: div_less_iff_less_mult)
    then have "length (hex_digits (n div 16)) \<le> Suc k"
      by (rule Suc(1))
    with False show ?thesis by (subst hex_digits.simps) simp
  qed
qed

lemma print_word_length: "length (print_word w) = 8"
proof -
  have "uint w < 2 ^ 32"
    using uint_bounded [of w] by simp
  then have "uint w < 16 ^ Suc 7" by simp
  then have "length (hex_digits (uint w)) \<le> Suc 7"
    by (intro hex_digits_length) simp_all
  then show ?thesis
    by (simp add: print_word_def Let_def)
qed

lemma main_print_length: "length (main_print st) = 8 * length st + 1"
proof -
  have "length (concat (map print_word st)) = 8 * length st"
    by (induction st) (simp_all add: print_word_length)
  then show ?thesis by (simp add: main_print_def)
qed

lemma compress_length: "length (compress st W) = length st"
  by (simp add: compress_def split: prod.split)

section \<open>The stores of \<open>sha256_transform\<close>\<close>

lemma put_apply: "put s a v x = (if x = a then v else s x)"
  by (simp add: put_def)

lemma length_load [simp]: "length (load s base n) = n"
  by (simp add: load_def)

lemma nth_load [simp]: "i < n \<Longrightarrow> load s base n ! i = s (base + i)"
  by (simp add: load_def)

lemma load_put_in:
  "i < n \<Longrightarrow> load (put s (base + i) v) base n = (load s base n)[i := v]"
  by (rule nth_equalityI) (auto simp add: nth_list_update put_apply)

lemma load_cong:
  "(\<And>i. i < n \<Longrightarrow> s (base + i) = s' (base + i)) \<Longrightarrow> load s base n = load s' base n"
  by (simp add: load_def)

lemma load_append: "load s base (n + m) = load s base n @ load s (base + n) m"
  by (rule nth_equalityI) (auto simp add: nth_append add.assoc)

lemma copy_stores_step:
  "i < 16 \<Longrightarrow> copy_stores bp wp i s = copy_stores bp wp (i + 1) (put s (wp + i) (s (bp + i)))"
  by (subst copy_stores.simps) simp

lemma copy_stores_stop: "\<not> i < 16 \<Longrightarrow> copy_stores bp wp i s = s"
  by (subst copy_stores.simps) simp

lemma copy_stores_other:
  "x \<notin> {wp + i..<wp + 16} \<Longrightarrow> copy_stores bp wp i s x = s x"
proof (induction bp wp i s rule: copy_stores.induct)
  case (1 bp wp i s)
  show ?case
  proof (cases "i < 16")
    case True
    with 1(2) have x: "x \<noteq> wp + i" "x \<notin> {wp + (i + 1)..<wp + 16}" by auto
    have "copy_stores bp wp i s x = copy_stores bp wp (i + 1) (put s (wp + i) (s (bp + i))) x"
      using True by (simp only: copy_stores_step)
    also have "\<dots> = put s (wp + i) (s (bp + i)) x"
      using True x(2) by (rule 1(1))
    also have "\<dots> = s x"
      using x(1) by (simp add: put_apply)
    finally show ?thesis .
  next
    case False
    then show ?thesis by (simp add: copy_stores_stop)
  qed
qed

lemma copy_stores_copied:
  assumes "apart bp 16 wp 16" "i \<le> j" "j < 16"
  shows "copy_stores bp wp i s (wp + j) = s (bp + j)"
  using assms
proof (induction bp wp i s rule: copy_stores.induct)
  case (1 bp wp i s)
  from 1(3,4) have i: "i < 16" by simp
  let ?s = "put s (wp + i) (s (bp + i))"
  have unf: "copy_stores bp wp i s = copy_stores bp wp (i + 1) ?s"
    using i by (rule copy_stores_step)
  from 1(2) 1(4) i have ne: "bp + j \<noteq> wp + i"
    by (auto simp add: apart_def)
  show ?case
  proof (cases "i = j")
    case True
    have "wp + j \<notin> {wp + (i + 1)..<wp + 16}"
      using True by simp
    then have "copy_stores bp wp (i + 1) ?s (wp + j) = ?s (wp + j)"
      by (rule copy_stores_other)
    also have "\<dots> = s (bp + j)"
      using True by (simp add: put_apply)
    finally show ?thesis unfolding unf .
  next
    case False
    with 1(3) have "i + 1 \<le> j" by simp
    with i 1(2) have "copy_stores bp wp (i + 1) ?s (wp + j) = ?s (bp + j)"
      using 1(4) by (rule 1(1))
    also have "\<dots> = s (bp + j)"
      using ne by (simp add: put_apply)
    finally show ?thesis unfolding unf .
  qed
qed

lemma schedule_stores_step:
  "t < 64 \<Longrightarrow> schedule_stores wp t s
     = schedule_stores wp (t + 1)
         (put s (wp + t) (sigma1 (s (wp + (t - 2))) + s (wp + (t - 7))
                           + sigma0 (s (wp + (t - 15))) + s (wp + (t - 16))))"
  by (subst schedule_stores.simps) simp

lemma schedule_stores_stop: "\<not> t < 64 \<Longrightarrow> schedule_stores wp t s = s"
  by (subst schedule_stores.simps) simp

lemma schedule_stores_other:
  "x \<notin> {wp + t..<wp + 64} \<Longrightarrow> schedule_stores wp t s x = s x"
proof (induction wp t s rule: schedule_stores.induct)
  case (1 wp t s)
  show ?case
  proof (cases "t < 64")
    case True
    let ?s = "put s (wp + t) (sigma1 (s (wp + (t - 2))) + s (wp + (t - 7))
                           + sigma0 (s (wp + (t - 15))) + s (wp + (t - 16)))"
    from True 1(2) have x: "x \<noteq> wp + t" "x \<notin> {wp + (t + 1)..<wp + 64}" by auto
    have "schedule_stores wp t s x = schedule_stores wp (t + 1) ?s x"
      using True by (simp only: schedule_stores_step)
    also have "\<dots> = ?s x"
      using True x(2) by (rule 1(1))
    also have "\<dots> = s x"
      using x(1) by (simp add: put_apply)
    finally show ?thesis .
  next
    case False
    then show ?thesis by (simp add: schedule_stores_stop)
  qed
qed

lemma schedule_stores_load:
  assumes "16 \<le> t"
  shows "load (schedule_stores wp t s) wp 64 = schedule_loop t (load s wp 64)"
  using assms
proof (induction wp t s rule: schedule_stores.induct)
  case (1 wp t s)
  show ?case
  proof (cases "t < 64")
    case True
    let ?v = "sigma1 (s (wp + (t - 2))) + s (wp + (t - 7))
                + sigma0 (s (wp + (t - 15))) + s (wp + (t - 16))"
    let ?W = "load s wp 64"
    from True 1(2) have v: "?v = sigma1 (?W ! (t - 2)) + ?W ! (t - 7) + sigma0 (?W ! (t - 15)) + ?W ! (t - 16)"
      by simp
    have "load (schedule_stores wp t s) wp 64 = load (schedule_stores wp (t + 1) (put s (wp + t) ?v)) wp 64"
      using True by (simp only: schedule_stores_step)
    also have "\<dots> = schedule_loop (t + 1) (load (put s (wp + t) ?v) wp 64)"
      using True 1(2) by (intro 1(1)) simp_all
    also have "load (put s (wp + t) ?v) wp 64 = ?W[t := ?v]"
      using True by (rule load_put_in)
    also have "schedule_loop (t + 1) (?W[t := ?v]) = schedule_loop t ?W"
      using True by (subst (2) schedule_loop.simps) (simp only: v if_True)
    finally show ?thesis .
  next
    case False
    then show ?thesis
      by (subst schedule_loop.simps) (simp add: schedule_stores_stop)
  qed
qed

lemma round_loads_body:
  assumes "t < 64"
  shows "round_loads wp s t v = round_body (load s wp 64) t v"
proof -
  obtain a b c d e f g h where v: "v = (a, b, c, d, e, f, g, h)"
    by (metis prod_cases3)
  from assms show ?thesis
    unfolding v by simp
qed

lemma main_loads_loop: "main_loads wp s t v = main_loop t (load s wp 64) v"
proof (induction wp s t v rule: main_loads.induct)
  case (1 wp s t v)
  show ?case
  proof (cases "t < 64")
    case True
    have "main_loads wp s t v = main_loads wp s (t + 1) (round_loads wp s t v)"
      using True by (subst main_loads.simps) simp
    also have "\<dots> = main_loop (t + 1) (load s wp 64) (round_loads wp s t v)"
      using True by (rule 1)
    also have "\<dots> = main_loop t (load s wp 64) v"
      using True by (subst (2) main_loop.simps) (simp add: round_loads_body)
    finally show ?thesis .
  next
    case False
    then show ?thesis
      by (subst main_loads.simps, subst main_loop.simps) simp
  qed
qed

lemma load8: "load s base 8
    = [s (base + 0), s (base + 1), s (base + 2), s (base + 3),
       s (base + 4), s (base + 5), s (base + 6), s (base + 7)]"
  by (rule nth_equalityI) (auto simp add: nth_Cons' less_Suc_eq numeral_eq_Suc)

lemma sha256_transform_stores_other:
  assumes "x \<notin> {sp..<sp + 8}"
  shows "sha256_transform_stores sp bp wp s x = schedule_stores wp 16 (copy_stores bp wp 0 s) x"
proof -
  from assms have "x \<noteq> sp + 0" "x \<noteq> sp + 1" "x \<noteq> sp + 2" "x \<noteq> sp + 3"
    "x \<noteq> sp + 4" "x \<noteq> sp + 5" "x \<noteq> sp + 6" "x \<noteq> sp + 7"
    by auto
  then show ?thesis
    by (simp add: sha256_transform_stores_def Let_def put_apply split: prod.split)
qed

lemma sha256_transform_stores_state:
  "load (sha256_transform_stores sp bp wp s) sp 8
     = compress (load (schedule_stores wp 16 (copy_stores bp wp 0 s)) sp 8)
         (load (schedule_stores wp 16 (copy_stores bp wp 0 s)) wp 64)"
  by (simp add: sha256_transform_stores_def Let_def main_loads_loop compress_def load8 put_apply
      split: prod.split)

lemma apart_16_64: "apart bp 16 wp 64 \<Longrightarrow> apart bp 16 wp 16"
  by (auto simp add: apart_def)

lemma schedule_after_copy:
  assumes "apart bp 16 wp 64"
  shows "load (schedule_stores wp 16 (copy_stores bp wp 0 s)) wp 64 = message_schedule (load s bp 16)"
proof -
  let ?c = "copy_stores bp wp 0 s"
  have "load ?c wp 16 = load s bp 16"
    by (rule nth_equalityI) (simp_all add: copy_stores_copied [OF apart_16_64 [OF assms]])
  moreover have "load ?c wp 64 = load ?c wp 16 @ load ?c (wp + 16) 48"
    using load_append [of ?c wp 16 48] by simp
  ultimately have "load ?c wp 64 = load s bp 16 @ load ?c (wp + 16) 48"
    by simp
  then have "schedule_loop 16 (load ?c wp 64) = message_schedule (load s bp 16)"
    by (simp add: schedule_loop_tail)
  then show ?thesis
    by (simp add: schedule_stores_load)
qed

lemma before_rounds_other:
  assumes "x \<notin> {wp..<wp + 64}"
  shows "schedule_stores wp 16 (copy_stores bp wp 0 s) x = s x"
proof -
  from assms have "x \<notin> {wp + 16..<wp + 64}" "x \<notin> {wp + 0..<wp + 16}"
    by auto
  then show ?thesis
    by (simp add: schedule_stores_other copy_stores_other)
qed

section \<open>The program on three inputs\<close>

text \<open>
  The program run on the empty message and on \<open>abc\<close> with the storage of
  \<open>block\<close> all zero, and on the empty message with one stale bit in it.
\<close>

lemma main_zeroed_empty:
  "main zeroed []
     = Inr (''e3b0c44298fc1c149afbf4c8996fb92427ae41e4649b934ca495991b7852b855'' @ [CHR 0x0A])"
  by code_simp

lemma main_zeroed_abc:
  "main zeroed msg_abc
     = Inr (''5b2beac7edfc3d105f66435f0ddf6c8ba1a07ff784229bf07ac92a88eb4756ec'' @ [CHR 0x0A])"
  by code_simp

lemma main_stale_empty:
  "main stale []
     = Inr (''e3efc4781cd076ae93553b24dc91778da35f758cbfe8a189965c58c7783dde8b'' @ [CHR 0x0A])"
  by code_simp

text \<open>With the storage all zero, the assembled words are the big-endian words.\<close>

lemma main_words_zeroed:
  assumes "k < 16"
  shows "main_words zeroed bytes ! k
     = be_word (bytes ! (4 * k)) (bytes ! (4 * k + 1)) (bytes ! (4 * k + 2)) (bytes ! (4 * k + 3))"
  using assms by (simp add: main_words_nth zeroed_def or_bytes_be_word)

section \<open>The claims\<close>

text \<open>
  C1, as the specification has it: the program prints
  \<open>ba7816bf8f01cfea414140de5dae2223b00361a396177a9cb410ff61f20015ad\<close> for \<open>abc\<close>
  and \<open>e3b0c44298fc1c149afbf4c8996fb92427ae41e4649b934ca495991b7852b85\<close> for the
  empty message. It prints neither, even when the storage of \<open>block\<close> is all zero: no
  bit-length is appended to \<open>abc\<close>, and the second string has 63 characters.
\<close>

theorem C1_known_vectors_counterexample:
  "main zeroed msg_abc
     \<noteq> Inr (''ba7816bf8f01cfea414140de5dae2223b00361a396177a9cb410ff61f20015ad'' @ [CHR 0x0A])
   \<and> main zeroed []
     \<noteq> Inr (''e3b0c44298fc1c149afbf4c8996fb92427ae41e4649b934ca495991b7852b85'' @ [CHR 0x0A])"
  by (simp add: main_zeroed_abc main_zeroed_empty)

text \<open>
  C1, amended: with the storage of \<open>block\<close> all zero, the program prints
  \<open>5b2beac7edfc3d105f66435f0ddf6c8ba1a07ff784229bf07ac92a88eb4756ec\<close> for \<open>abc\<close>
  (the compression of the one block \<open>61626380 00000000 ...\<close>, which holds no
  bit-length) and \<open>e3b0c44298fc1c149afbf4c8996fb92427ae41e4649b934ca495991b7852b855\<close>,
  64 characters, for the empty message.
\<close>

theorem C1_known_vectors_amended:
  "main zeroed msg_abc
     = Inr (''5b2beac7edfc3d105f66435f0ddf6c8ba1a07ff784229bf07ac92a88eb4756ec'' @ [CHR 0x0A])
   \<and> main zeroed []
     = Inr (''e3b0c44298fc1c149afbf4c8996fb92427ae41e4649b934ca495991b7852b855'' @ [CHR 0x0A])"
  by (simp only: main_zeroed_abc main_zeroed_empty)

text \<open>
  C2, as the specification has it: the last 8 bytes of the padded sequence, read as a
  big-endian integer, are the bit-length of the message. For \<open>abc\<close> they are not 24.
\<close>

theorem C2_padding_counterexample:
  "\<not> (be_decode (drop (length (main_pad msg_abc) - 8) (main_pad msg_abc)) = 8 * length msg_abc)"
  by (simp add: main_pad_short msg_abc_def be_decode_zeros)


text \<open>
  C2, amended: for every message of \<open>L \<le> 64\<close> bytes the padded sequence has
  exactly 64 bytes, a multiple of 64: the message, then \<open>0x80\<close> when \<open>L < 64\<close>,
  then zeros. No bit-length is appended, so for \<open>L < 56\<close> the last 8 bytes decode
  to 0.
\<close>

theorem C2_padding_amended:
  assumes "length input \<le> 64"
  shows "length (main_pad input) = 64 \<and> 64 dvd length (main_pad input)
    \<and> take (length input) (main_pad input) = input
    \<and> (length input < 64 \<longrightarrow> main_pad input ! length input = 0x80)
    \<and> (\<forall>k. length input < k \<and> k < 64 \<longrightarrow> main_pad input ! k = 0)
    \<and> (length input < 56 \<longrightarrow>
          be_decode (drop (length (main_pad input) - 8) (main_pad input)) = 0)"
proof (cases "length input < 64")
  case True
  note p = main_pad_short [OF True]
  have tl: "main_pad input ! k = 0" if "length input < k" "k < 64" for k
    using that by (simp add: p nth_append nth_Cons split: nat.split)
  have "drop 56 (main_pad input) = replicate 8 0" if "length input < 56"
  proof -
    from that have a: "56 - length input = Suc (55 - length input)"
      and b: "63 - length input - (55 - length input) = 8"
      by arith+
    from that show ?thesis
      by (simp add: p a b)
  qed
  then have "length input < 56 \<longrightarrow> be_decode (drop (length (main_pad input) - 8) (main_pad input)) = 0"
    using assms by (simp add: main_pad_length be_decode_zeros)
  with True tl show ?thesis
    by (simp add: p)
next
  case False
  with assms have "length input = 64" by simp
  then show ?thesis
    by (auto simp add: main_pad_full)
qed

theorem C2_padding_amended_witness:
  "length msg_abc \<le> 64 \<and> length (main_pad msg_abc) = 64
   \<and> main_pad msg_abc ! 3 = 0x80
   \<and> be_decode (drop (length (main_pad msg_abc) - 8) (main_pad msg_abc)) = 0"
proof -
  have l: "length msg_abc = 3" by (simp add: msg_abc_def)
  then have h: "length msg_abc \<le> 64" by simp
  from C2_padding_amended [OF h] h show ?thesis
    by (auto simp add: l)
qed

text \<open>
  C3, as the specification has it: every message is hashed. A message of 65 bytes is
  rejected.
\<close>

theorem C3_long_input_counterexample:
  "main zeroed msg_65 = Inl InputTooLong"
  by (simp add: main_def main_state_def msg_65_def)


text \<open>
  C3, amended: every message of at most 64 bytes is hashed, whatever the storage of
  \<open>block\<close> holds: the state has eight words and the program prints 64 hexadecimal
  characters and a newline. Every longer message ends the program with exit code 1.
\<close>

theorem C3_defined_up_to_64_bytes:
  "(length input \<le> 64 \<longrightarrow>
      (\<exists>st. main_state uninit input = Inr st \<and> length st = 8
            \<and> main uninit input = Inr (main_print st) \<and> length (main_print st) = 65))
   \<and> (64 < length input \<longrightarrow> main uninit input = Inl InputTooLong)"
  by (simp add: main_def main_state_def sha256_transform_def compress_length IV_def
      main_print_length)

theorem C3_defined_up_to_64_bytes_witness:
  "length msg_abc \<le> 64 \<and> (\<exists>st. main zeroed msg_abc = Inr (main_print st) \<and> length st = 8)
   \<and> 64 < length msg_65 \<and> main stale msg_65 = Inl InputTooLong"
proof -
  have h: "length msg_abc \<le> 64" "64 < length msg_65"
    by (simp_all add: msg_abc_def msg_65_def)
  from C3_defined_up_to_64_bytes [of msg_abc zeroed] C3_defined_up_to_64_bytes [of msg_65 stale] h
  show ?thesis by blast
qed

text \<open>
  C4, as the specification has it: a message of 56 bytes is padded to 128 bytes. It
  is padded to 64.
\<close>

theorem C4_56_bytes_counterexample:
  "length msg_56 = 56 \<and> length (main_pad msg_56) \<noteq> 128"
  by (simp add: msg_56_def main_pad_length)


text \<open>
  C4, amended: a message of exactly 56 bytes is padded to exactly 64 bytes, one block:
  the message, \<open>0x80\<close> and seven zero bytes, with no second block and no length
  field.
\<close>

theorem C4_56_bytes_amended:
  assumes "length input = 56"
  shows "main_pad input = input @ 0x80 # replicate 7 0 \<and> length (main_pad input) = 64"
  using assms by (simp add: main_pad_short)

theorem C4_56_bytes_amended_witness:
  "length msg_56 = 56 \<and> main_pad msg_56 = msg_56 @ 0x80 # replicate 7 0
   \<and> length (main_pad msg_56) = 64"
proof -
  have h: "length msg_56 = 56" by (simp add: msg_56_def)
  from C4_56_bytes_amended [OF h] h show ?thesis by simp
qed

text \<open>
  C5. For every state of eight words and every schedule \<open>W\<close> of 64 words, the
  compression of lines 100-132 is the specification's: 64 rounds, round \<open>t\<close>
  computing \<open>T1 = (h + \<Sigma>1(e) + Ch(e,f,g) + K[t] + W[t]) mod 2^32\<close> and
  \<open>T2 = (\<Sigma>0(a) + Maj(a,b,c)) mod 2^32\<close> and shifting the working variables
  (\<open>spec_round\<close>, with the round functions built from the true rotation), after
  which each working variable is added modulo \<open>2^32\<close> to the state word of the same
  position (\<open>spec_compress\<close>); the state keeps its eight words.
\<close>

theorem C5_compress_refines_spec:
  assumes "length st = 8" and "length W = 64"
  shows "compress st W = spec_compress st W \<and> length (compress st W) = 8"
proof -
  from assms(1) have "compress st W = spec_compress st W"
    by (rule compress_spec)
  moreover from assms(1) have "length (spec_compress st W) = 8"
    by (simp add: spec_compress_def split: prod.split)
  ultimately show ?thesis by simp
qed

theorem C5_compress_refines_spec_witness:
  "length IV = 8 \<and> length (replicate 64 (0::u32)) = 64
   \<and> compress IV (replicate 64 0) = spec_compress IV (replicate 64 0)"
  using C5_compress_refines_spec [of IV "replicate 64 0"] by (simp add: IV_def)

text \<open>
  C6. For every block of 16 words the schedule has 64 words, its first 16 are the
  block's, and for \<open>t = 16 .. 63\<close> word \<open>t\<close> is
  \<open>(\<sigma>1(W[t-2]) + W[t-7] + \<sigma>0(W[t-15]) + W[t-16]) mod 2^32\<close>, with
  \<open>\<sigma>0(x) = rotr(x,7) XOR rotr(x,18) XOR shr(x,3)\<close> and
  \<open>\<sigma>1(x) = rotr(x,17) XOR rotr(x,19) XOR shr(x,10)\<close>. The sums wrap around;
  the function is total, so no overflow is ever an error.
\<close>

theorem C6_message_schedule:
  assumes "length blk = 16"
  shows "length (message_schedule blk) = 64
    \<and> (\<forall>t<16. message_schedule blk ! t = blk ! t)
    \<and> (\<forall>t. 16 \<le> t \<and> t < 64 \<longrightarrow>
          unat (message_schedule blk ! t)
            = (unat (spec_sigma1 (message_schedule blk ! (t - 2)))
               + unat (message_schedule blk ! (t - 7))
               + unat (spec_sigma0 (message_schedule blk ! (t - 15)))
               + unat (message_schedule blk ! (t - 16))) mod 2 ^ 32)"
proof (intro conjI allI impI)
  from assms show "length (message_schedule blk) = 64"
    by (simp add: message_schedule_def schedule_loop_length)
next
  fix t :: nat assume "t < 16"
  with assms show "message_schedule blk ! t = blk ! t"
    by (simp add: message_schedule_def schedule_loop_below nth_append)
next
  fix t :: nat assume t: "16 \<le> t \<and> t < 64"
  let ?W = "message_schedule blk"
  from assms have len: "length (blk @ replicate 48 (0::u32)) = 64" by simp
  from t have "?W ! t = sigma1 (?W ! (t - 2)) + ?W ! (t - 7) + sigma0 (?W ! (t - 15)) + ?W ! (t - 16)"
    unfolding message_schedule_def by (intro schedule_loop_rec [OF _ len]) simp_all
  then have "unat (?W ! t)
      = unat (spec_sigma1 (?W ! (t - 2)) + ?W ! (t - 7) + spec_sigma0 (?W ! (t - 15)) + ?W ! (t - 16))"
    by (simp add: spec_sigma0_def spec_sigma1_def sigma0_rotr sigma1_rotr)
  then show "unat (?W ! t)
      = (unat (spec_sigma1 (?W ! (t - 2))) + unat (?W ! (t - 7))
         + unat (spec_sigma0 (?W ! (t - 15))) + unat (?W ! (t - 16))) mod 2 ^ 32"
    by (simp only: unat_add4)
qed

theorem C6_message_schedule_witness:
  "length (replicate 16 (1::u32)) = 16
   \<and> length (message_schedule (replicate 16 1)) = 64
   \<and> message_schedule (replicate 16 1) ! 15 = replicate 16 1 ! 15
   \<and> unat (message_schedule (replicate 16 1) ! 16)
        = (unat (spec_sigma1 (message_schedule (replicate 16 1) ! 14))
           + unat (message_schedule (replicate 16 1) ! 9)
           + unat (spec_sigma0 (message_schedule (replicate 16 1) ! 1))
           + unat (message_schedule (replicate 16 1) ! 0)) mod 2 ^ 32"
proof -
  have len: "length (replicate 16 (1::u32)) = 16" by simp
  note c = C6_message_schedule [OF len]
  from c have "message_schedule (replicate 16 1) ! 15 = replicate 16 (1::u32) ! 15"
    by simp
  moreover from c have "unat (message_schedule (replicate 16 1) ! 16)
        = (unat (spec_sigma1 (message_schedule (replicate 16 1) ! (16 - 2)))
           + unat (message_schedule (replicate 16 1) ! (16 - 7))
           + unat (spec_sigma0 (message_schedule (replicate 16 1) ! (16 - 15)))
           + unat (message_schedule (replicate 16 1) ! (16 - 16))) mod 2 ^ 32"
    using c [THEN conjunct2, THEN conjunct2, rule_format, of 16] by simp
  ultimately show ?thesis using c by simp
qed

text \<open>
  C7. Word \<open>i\<close> of the block should be the big-endian assembly of bytes
  \<open>4i .. 4i+3\<close>. The loop ORs the bytes into storage that was never initialised
  (\<open>main_words_nth\<close>), so what the storage held stays in the word: for the chunk of
  the empty message and a storage whose word 1 holds 1, word 1 of the block is 1
  while bytes 4 .. 7 assemble to 0.
\<close>

theorem C7_block_keeps_stale_bits:
  "main_words stale (main_pad []) ! 1 = 1
   \<and> be_word (main_pad [] ! 4) (main_pad [] ! 5) (main_pad [] ! 6) (main_pad [] ! 7) = 0"
  by code_simp

text \<open>
  C8. The digest should depend on the message alone. It also depends on what the
  uninitialised storage of \<open>block\<close> held: the empty message gives two different
  outputs for two contents of that storage.
\<close>

theorem C8_digest_depends_on_storage:
  "main zeroed [] \<noteq> main stale []"
  by (simp add: main_zeroed_empty main_stale_empty)

text \<open>
  C9. \<open>sha256_transform\<close> leaves the block as it was. With \<open>state\<close>,
  \<open>block\<close> and the function's own \<open>W\<close> lying apart in memory, the 16 words of
  \<open>block\<close> after the call are the words before it; no address outside \<open>state\<close>
  and \<open>W\<close> is stored to, so of the caller's data only the eight-word state array
  changes; and the state and the block after the call are those of the function on
  the two arrays.
\<close>

theorem C9_block_not_modified:
  assumes "apart sp 8 bp 16" and "apart sp 8 wp 64" and "apart bp 16 wp 64"
  shows "load (sha256_transform_stores sp bp wp s) bp 16 = load s bp 16
    \<and> (\<forall>x. x \<notin> {sp..<sp + 8} \<union> {wp..<wp + 64} \<longrightarrow> sha256_transform_stores sp bp wp s x = s x)
    \<and> load (sha256_transform_stores sp bp wp s) sp 8
        = state (sha256_transform \<lparr>state = load s sp 8, block = load s bp 16\<rparr>)
    \<and> load s bp 16 = block (sha256_transform \<lparr>state = load s sp 8, block = load s bp 16\<rparr>)"
proof (intro conjI allI impI)
  have other: "sha256_transform_stores sp bp wp s x = s x"
    if "x \<notin> {sp..<sp + 8} \<union> {wp..<wp + 64}" for x
    using that by (simp add: sha256_transform_stores_other before_rounds_other)
  show "load (sha256_transform_stores sp bp wp s) bp 16 = load s bp 16"
  proof (rule load_cong)
    fix i :: nat assume "i < 16"
    with assms(1,3) have "bp + i \<notin> {sp..<sp + 8} \<union> {wp..<wp + 64}"
      by (auto simp add: apart_def)
    then show "sha256_transform_stores sp bp wp s (bp + i) = s (bp + i)"
      by (rule other)
  qed
  show "sha256_transform_stores sp bp wp s x = s x"
    if "x \<notin> {sp..<sp + 8} \<union> {wp..<wp + 64}" for x
    using that by (rule other)
  have "load (schedule_stores wp 16 (copy_stores bp wp 0 s)) sp 8 = load s sp 8"
  proof (rule load_cong)
    fix i :: nat assume "i < 8"
    with assms(2) have "sp + i \<notin> {wp..<wp + 64}"
      by (auto simp add: apart_def)
    then show "schedule_stores wp 16 (copy_stores bp wp 0 s) (sp + i) = s (sp + i)"
      by (rule before_rounds_other)
  qed
  then show "load (sha256_transform_stores sp bp wp s) sp 8
        = state (sha256_transform \<lparr>state = load s sp 8, block = load s bp 16\<rparr>)"
    by (simp add: sha256_transform_stores_state schedule_after_copy [OF assms(3)]
        sha256_transform_def)
  show "load s bp 16 = block (sha256_transform \<lparr>state = load s sp 8, block = load s bp 16\<rparr>)"
    by (simp add: sha256_transform_def)
qed

theorem C9_block_not_modified_witness:
  "apart 0 8 8 16 \<and> apart 0 8 24 64 \<and> apart 8 16 24 64
   \<and> load (sha256_transform_stores 0 8 24 zeroed) 8 16 = load zeroed 8 16
   \<and> load (sha256_transform_stores 0 8 24 zeroed) 0 8
        = state (sha256_transform \<lparr>state = load zeroed 0 8, block = load zeroed 8 16\<rparr>)"
proof -
  have a: "apart 0 8 8 16" "apart 0 8 24 64" "apart 8 16 24 64"
    by (simp_all add: apart_def)
  from C9_block_not_modified [OF a, of zeroed] a show ?thesis
    by simp
qed

text \<open>
  C10. Every call of \<open>ROTR\<close> comes from \<open>Sigma0\<close>, \<open>Sigma1\<close>, \<open>sigma0\<close> or
  \<open>sigma1\<close>, and the amounts these pass are 2, 13, 22; 6, 11, 25; 7, 18; 17, 19.
  Each of them lies between 1 and 31, so both shifts are by less than 32, no call is
  undefined, and \<open>ROTR\<close> returns the 32-bit right rotation.
\<close>

theorem C10_ROTR_amounts:
  "(Sigma0_calls x calls = (Some (Sigma0 x), calls @ [2, 13, 22])
    \<and> Sigma1_calls x calls = (Some (Sigma1 x), calls @ [6, 11, 25])
    \<and> sigma0_calls x calls = (Some (sigma0 x), calls @ [7, 18])
    \<and> sigma1_calls x calls = (Some (sigma1 x), calls @ [17, 19]))
   \<and> (\<forall>n \<in> set [2, 13, 22, 6, 11, 25, 7, 18, 17, 19].
         1 \<le> n \<and> n \<le> 31 \<and> unat n < 32 \<and> unat (32 - n) < 32
         \<and> ROTR_chk y n = Some (ROTR y n) \<and> ROTR y n = word_rotr (unat n) y)"
proof (rule conjI)
  have r: "ROTR_chk x n = Some (ROTR x n)" if "1 \<le> n" "n \<le> 31" for n
    using that by (simp add: ROTR_chk_Some ROTR_word_rotr)
  show "Sigma0_calls x calls = (Some (Sigma0 x), calls @ [2, 13, 22])
    \<and> Sigma1_calls x calls = (Some (Sigma1 x), calls @ [6, 11, 25])
    \<and> sigma0_calls x calls = (Some (sigma0 x), calls @ [7, 18])
    \<and> sigma1_calls x calls = (Some (sigma1 x), calls @ [17, 19])"
    by (simp add: Sigma0_calls_def Sigma1_calls_def sigma0_calls_def sigma1_calls_def
        ROTR_call_def xor_chk_def r Sigma0_def Sigma1_def sigma0_def sigma1_def)
next
  show "\<forall>n \<in> set [2, 13, 22, 6, 11, 25, 7, 18, 17, 19].
         1 \<le> n \<and> n \<le> 31 \<and> unat n < 32 \<and> unat (32 - n) < 32
         \<and> ROTR_chk y n = Some (ROTR y n) \<and> ROTR y n = word_rotr (unat n) y"
  proof
    fix n :: u32 assume "n \<in> set [2, 13, 22, 6, 11, 25, 7, 18, 17, 19]"
    then have n: "1 \<le> n" "n \<le> 31"
      by auto
    then have a: "1 \<le> unat n" "unat n \<le> 31"
      by (simp_all add: word_le_nat_alt)
    then have "unat (32 - n) = 32 - unat n"
      by (simp add: unat_sub word_le_nat_alt)
    with a have "unat n < 32" "unat (32 - n) < 32"
      by simp_all
    with n show "1 \<le> n \<and> n \<le> 31 \<and> unat n < 32 \<and> unat (32 - n) < 32
         \<and> ROTR_chk y n = Some (ROTR y n) \<and> ROTR y n = word_rotr (unat n) y"
      by (simp add: ROTR_chk_Some ROTR_word_rotr)
  qed
qed

theorem C10_ROTR_amounts_witness:
  "(13::u32) \<in> set [2, 13, 22, 6, 11, 25, 7, 18, 17, 19]
   \<and> ROTR_chk 0x12345678 13 = Some (ROTR 0x12345678 13)
   \<and> ROTR 0x12345678 13 = word_rotr 13 0x12345678
   \<and> Sigma0_calls 0x12345678 [] = (Some (Sigma0 0x12345678), [2, 13, 22])"
proof -
  note c = C10_ROTR_amounts [of "0x12345678" "[]" "0x12345678"]
  have m: "(13::u32) \<in> set [2, 13, 22, 6, 11, 25, 7, 18, 17, 19]"
    by simp
  from c [THEN conjunct2, rule_format, OF m] c [THEN conjunct1] m show ?thesis
    by simp
qed

end
